theory Spec2Isabelle
  imports Main "HOL-Library.Word"
begin

unbundle bit_operations_syntax

section \<open>Data model of \<^verbatim>\<open>containers/uuid.cc\<close>\<close>

text \<open>
  A \<^verbatim>\<open>uuid_t\<close> holds one field, \<^verbatim>\<open>uint8_t data_[kStaticSize]\<close>. It is modelled as the
  list of its bytes; the array's fixed size is the side condition
  \<open>length u = kStaticSize\<close> of the theorems below. A \<^verbatim>\<open>std::string\<close> is a \<open>string\<close>.
\<close>

type_synonym u8 = "8 word"
type_synonym uuid_t = "u8 list"

text \<open>\<^verbatim>\<open>CT_ASSERT(uuid_t::kStaticSize == 16)\<close> (in \<^verbatim>\<open>uuid_to_str\<close>) fixes the size.\<close>

definition kStaticSize :: nat where
  "kStaticSize = 16"

text \<open>
  Modelled from the spec: the constant \<^verbatim>\<open>uuid_t::kStringSize\<close> is declared in
  \<^verbatim>\<open>uuid.hpp\<close>, which is not part of the sources at hand. The spec gives the canonical
  string form as ``a fixed 36-character string (32 hex digits + 4 hyphens)''.
\<close>

definition kStringSize :: nat where
  "kStringSize = 36"

text \<open>
  Outcomes that are not a normal return: a failed \<^verbatim>\<open>rassert\<close> (debug builds abort),
  a failed \<^verbatim>\<open>guarantee\<close> (every build aborts) and the \<^verbatim>\<open>std::runtime_error\<close> thrown
  by the one-argument \<^verbatim>\<open>str_to_uuid\<close>.
\<close>

datatype error = Rassert_failed | Guarantee_failed | Runtime_error string

subsection \<open>C library primitives\<close>

text \<open>
  A string literal as the bytes the compiler stores: its characters and the
  terminating NUL.
\<close>

definition c_str :: "string \<Rightarrow> u8 list" where
  "c_str s = map of_char s @ [0]"

definition strlen :: "u8 list \<Rightarrow> nat" where
  "strlen bs = length (takeWhile (\<lambda>b. b \<noteq> 0) bs)"

text \<open>\<^verbatim>\<open>memcpy(dst, src, n)\<close>: the first \<open>n\<close> bytes of \<open>dst\<close> become those of \<open>src\<close>.\<close>

definition memcpy :: "u8 list \<Rightarrow> u8 list \<Rightarrow> nat \<Rightarrow> u8 list" where
  "memcpy dst src n = take n src @ drop n dst"

text \<open>\<^verbatim>\<open>memset(dst, c, n)\<close>.\<close>

definition memset :: "u8 list \<Rightarrow> u8 \<Rightarrow> nat \<Rightarrow> u8 list" where
  "memset dst c n = replicate n c @ drop n dst"

text \<open>
  \<^verbatim>\<open>memcmp(xs, ys, n)\<close>: the sign of the first difference among the first \<open>n\<close> bytes,
  compared as unsigned values. Every caller passes two buffers of \<open>n\<close> bytes; the
  last equation (a buffer shorter than \<open>n\<close>) is never reached from them.
\<close>

fun memcmp :: "u8 list \<Rightarrow> u8 list \<Rightarrow> nat \<Rightarrow> int" where
  "memcmp xs ys 0 = 0"
| "memcmp (x # xs) (y # ys) (Suc n) =
     (if x = y then memcmp xs ys n else if x < y then - 1 else 1)"
| "memcmp xs ys (Suc n) = 0"

text \<open>
  \<^verbatim>\<open>isdigit\<close> and \<^verbatim>\<open>tolower\<close> of \<^verbatim>\<open><ctype.h>\<close> on ASCII codes (the ``C'' locale).
\<close>

definition isdigit :: "int \<Rightarrow> bool" where
  "isdigit ch \<longleftrightarrow> of_char CHR ''0'' \<le> ch \<and> ch \<le> of_char CHR ''9''"

definition tolower :: "int \<Rightarrow> int" where
  "tolower ch =
     (if of_char CHR ''A'' \<le> ch \<and> ch \<le> of_char CHR ''Z''
      then ch + (of_char CHR ''a'' - of_char CHR ''A'') else ch)"

text \<open>
  The promotion of a \<^verbatim>\<open>char\<close> of a \<^verbatim>\<open>std::string\<close> to \<^verbatim>\<open>int\<close>. \<^verbatim>\<open>char\<close> is signed on
  the x86 targets of the code, so bytes from 128 on become negative; none of them is
  a digit or a letter under either signedness.
\<close>

definition char_to_int :: "char \<Rightarrow> int" where
  "char_to_int c = (if of_char c < (128 :: int) then of_char c else of_char c - 256)"

section \<open>Construction and the two special values\<close>

definition magic_unset_uuid :: string where
  "magic_unset_uuid = ''UNSET_UUID_____''"

text \<open>
  The default constructor copies \<open>kStaticSize\<close> bytes of the literal, its NUL
  included, into \<^verbatim>\<open>data_\<close>. The buffer before the copy is uninitialised; the copy
  overwrites all of it, so it is taken as zeros here.
\<close>

definition uuid_t :: uuid_t where
  "uuid_t = memcpy (replicate kStaticSize 0) (c_str magic_unset_uuid) kStaticSize"

definition is_unset :: "uuid_t \<Rightarrow> bool" where
  "is_unset this \<longleftrightarrow> \<not> (memcmp this (c_str magic_unset_uuid) kStaticSize \<noteq> 0)"

function is_nil_loop :: "uuid_t \<Rightarrow> nat \<Rightarrow> bool" where
  "is_nil_loop this i =
     (if i < kStaticSize
      then (if this ! i \<noteq> 0 then False else is_nil_loop this (i + 1))
      else True)"
  by pat_completeness auto
termination
  by (relation "measure (\<lambda>(this, i). kStaticSize - i)") auto

definition is_nil :: "uuid_t \<Rightarrow> bool" where
  "is_nil this = is_nil_loop this 0"

definition uuid_eq :: "uuid_t \<Rightarrow> uuid_t \<Rightarrow> bool" where
  "uuid_eq x y \<longleftrightarrow> memcmp x y kStaticSize = 0"

definition uuid_less :: "uuid_t \<Rightarrow> uuid_t \<Rightarrow> bool" where
  "uuid_less x y \<longleftrightarrow> memcmp x y kStaticSize < 0"

definition nil_uuid :: uuid_t where
  "nil_uuid = (let ret = uuid_t in memset ret 0 kStaticSize)"

section \<open>Canonical string encoding\<close>

definition push_hex :: "string \<Rightarrow> u8 \<Rightarrow> string" where
  "push_hex s byte =
     (let buf = ''0123456789abcdef'';
          s = s @ [buf ! unat (drop_bit 4 byte)];
          s = s @ [buf ! unat (byte AND 0x0f)]
      in s)"

text \<open>
  The five loops of \<^verbatim>\<open>uuid_to_str\<close> share the index \<open>i\<close>; each is a fold of
  \<open>push_hex\<close> over its index range.
\<close>

definition push_hex_range :: "uuid_t \<Rightarrow> nat \<Rightarrow> nat \<Rightarrow> string \<Rightarrow> string" where
  "push_hex_range data i n ret = fold (\<lambda>i ret. push_hex ret (data ! i)) [i..<n] ret"

definition uuid_to_str :: "uuid_t \<Rightarrow> string" where
  "uuid_to_str data =
     (let ret = [];
          ret = push_hex_range data 0 4 ret;
          ret = ret @ [CHR ''-''];
          ret = push_hex_range data 4 6 ret;
          ret = ret @ [CHR ''-''];
          ret = push_hex_range data 6 8 ret;
          ret = ret @ [CHR ''-''];
          ret = push_hex_range data 8 10 ret;
          ret = ret @ [CHR ''-''];
          ret = push_hex_range data 10 kStaticSize ret
      in ret)"

section \<open>Decoding\<close>

text \<open>
  \<^verbatim>\<open>from_hexdigit(ch, &out)\<close>: \<open>Some\<close> of the digit's value where the source returns
  true and stores it, \<open>None\<close> where it returns false.
\<close>

definition from_hexdigit :: "int \<Rightarrow> int option" where
  "from_hexdigit ch =
     (if isdigit ch then Some (ch - of_char CHR ''0'')
      else let ch = tolower ch
           in if of_char CHR ''a'' \<le> ch \<and> ch \<le> of_char CHR ''f''
              then Some (10 + (ch - of_char CHR ''a''))
              else None)"

text \<open>
  The \<^verbatim>\<open>default:\<close> branch of the switch, for byte \<open>i\<close> with the string index at \<open>j\<close>:
  \<open>Inl\<close> when a \<^verbatim>\<open>rassert\<close> fails, \<open>Inr None\<close> when the function returns false,
  \<open>Inr (Some (j', data'))\<close> when the branch reaches its \<^verbatim>\<open>break\<close>.
\<close>

definition switch_default ::
  "string \<Rightarrow> nat \<Rightarrow> nat \<Rightarrow> uuid_t \<Rightarrow> error + (nat \<times> uuid_t) option" where
  "switch_default str i j data =
     (if \<not> j < kStringSize then Inl Rassert_failed
      else case from_hexdigit (char_to_int (str ! j)) of
        None \<Rightarrow> Inr None
      | Some high \<Rightarrow>
          (let j = j + 1
           in if \<not> j < kStringSize then Inl Rassert_failed
              else case from_hexdigit (char_to_int (str ! j)) of
                None \<Rightarrow> Inr None
              | Some low \<Rightarrow>
                  (let j = j + 1
                   in Inr (Some (j, data[i := word_of_int (push_bit 4 high OR low)])))))"

text \<open>The whole switch: cases 4, 6, 8 and 10 test for the hyphen and fall through.\<close>

definition switch_body ::
  "string \<Rightarrow> nat \<Rightarrow> nat \<Rightarrow> uuid_t \<Rightarrow> error + (nat \<times> uuid_t) option" where
  "switch_body str i j data =
     (if i = 4 \<or> i = 6 \<or> i = 8 \<or> i = 10
      then (if \<not> j < kStringSize then Inl Rassert_failed
            else if str ! j \<noteq> CHR ''-'' then Inr None
            else switch_default str i (j + 1) data)
      else switch_default str i j data)"

function str_to_uuid_loop ::
  "string \<Rightarrow> nat \<Rightarrow> nat \<Rightarrow> uuid_t \<Rightarrow> error + (bool \<times> uuid_t)" where
  "str_to_uuid_loop str i j data =
     (if i < kStaticSize
      then (case switch_body str i j data of
              Inl e \<Rightarrow> Inl e
            | Inr None \<Rightarrow> Inr (False, data)
            | Inr (Some (j', data')) \<Rightarrow> str_to_uuid_loop str (i + 1) j' data')
      else if j = kStringSize then Inr (True, data) else Inl Rassert_failed)"
  by pat_completeness auto
termination
  by (relation "measure (\<lambda>(str, i, j, data). kStaticSize - i)") auto

text \<open>
  \<^verbatim>\<open>bool str_to_uuid(const std::string &str, uuid_t *uuid)\<close>: the flag returned and
  the bytes \<^verbatim>\<open>*uuid\<close> holds at the return.
\<close>

definition str_to_uuid :: "string \<Rightarrow> uuid_t \<Rightarrow> error + (bool \<times> uuid_t)" where
  "str_to_uuid str uuid =
     (if length str \<noteq> kStaticSize * 2 + 4 then Inr (False, uuid)
      else str_to_uuid_loop str 0 0 uuid)"

text \<open>\<^verbatim>\<open>uuid_t str_to_uuid(const std::string &uuid)\<close>, which throws.\<close>

definition str_to_uuid_throw :: "string \<Rightarrow> error + uuid_t" where
  "str_to_uuid_throw uuid =
     (let ret = uuid_t
      in case str_to_uuid uuid ret of
           Inl e \<Rightarrow> Inl e
         | Inr (True, ret) \<Rightarrow> Inr ret
         | Inr (False, ret) \<Rightarrow> Inl (Runtime_error ''invalid uuid''))"

text \<open>
  \<^verbatim>\<open>is_uuid\<close>: \<^verbatim>\<open>catch (...)\<close> turns a thrown exception into false. An abort is not
  an exception and is not caught.
\<close>

definition is_uuid :: "string \<Rightarrow> error + bool" where
  "is_uuid str =
     (case str_to_uuid_throw str of
        Inl (Runtime_error msg) \<Rightarrow> Inr False
      | Inl e \<Rightarrow> Inl e
      | Inr ret \<Rightarrow> Inr True)"

section \<open>Generation\<close>

text \<open>
  The two \<^verbatim>\<open>static __thread\<close> variables, one copy per thread. Static storage starts
  zeroed.
\<close>

record thread_state =
  next_uuid_initialized :: bool
  next_uuid :: "u8 list"

definition initial_thread_state :: thread_state where
  "initial_thread_state =
     \<lparr>next_uuid_initialized = False, next_uuid = replicate kStaticSize 0\<rparr>"

text \<open>
  The loop \<^verbatim>\<open>for (size_t i = uuid_t::static_size(); carry && i > 0; --i)\<close>; \<open>buf\<close>
  is the array \<^verbatim>\<open>next_uuid\<close>. A \<^verbatim>\<open>uint8_t\<close> addition wraps, as \<open>+\<close> on \<open>8 word\<close> does.
\<close>

function increment_loop :: "u8 list \<Rightarrow> bool \<Rightarrow> nat \<Rightarrow> u8 list" where
  "increment_loop buf carry i =
     (if carry \<and> i > 0
      then (let buf = buf[i - 1 := buf ! (i - 1) + 1];
                carry = (buf ! (i - 1) = 0)
            in increment_loop buf carry (i - 1))
      else buf)"
  by pat_completeness auto
termination
  by (relation "measure (\<lambda>(buf, carry, i). i)") auto

definition get_and_increment_uuid :: "thread_state \<Rightarrow> uuid_t \<times> thread_state" where
  "get_and_increment_uuid st =
     (let result = uuid_t;
          result = memcpy result (next_uuid st) kStaticSize;
          carry = True;
          st = st\<lparr>next_uuid := increment_loop (next_uuid st) carry kStaticSize\<rparr>
      in (result, st))"

text \<open>\<^verbatim>\<open>SHA_DIGEST_LENGTH\<close> of \<^verbatim>\<open><openssl/sha.h>\<close>.\<close>

definition SHA_DIGEST_LENGTH :: nat where
  "SHA_DIGEST_LENGTH = 20"

text \<open>
  OpenSSL's SHA-1 is outside the program and enters as the parameter \<open>SHA1\<close>: the
  digest that \<^verbatim>\<open>SHA1_Init\<close>, \<^verbatim>\<open>SHA1_Update\<close> and \<^verbatim>\<open>SHA1_Final\<close> leave in
  \<^verbatim>\<open>output_buffer\<close> for the bytes hashed, or \<open>None\<close> when one of the three calls
  does not return 1 and its \<^verbatim>\<open>guarantee\<close> aborts.
\<close>

definition hash_uuid :: "(u8 list \<Rightarrow> u8 list option) \<Rightarrow> uuid_t \<Rightarrow> error + uuid_t" where
  "hash_uuid SHA1 uuid =
     (case SHA1 (take kStaticSize uuid) of
        None \<Rightarrow> Inl Guarantee_failed
      | Some output_buffer \<Rightarrow>
          (let output_buffer = output_buffer[6 := (output_buffer ! 6 AND 0x0f) OR 0x40];
               output_buffer = output_buffer[8 := (output_buffer ! 8 AND 0x3f) OR 0x80]
           in Inr (memcpy uuid output_buffer kStaticSize)))"

text \<open>
  The entropy device is the parameter \<open>urandom\<close>: \<open>None\<close> when \<^verbatim>\<open>open\<close> returns -1,
  otherwise the bytes that \<^verbatim>\<open>read\<close> stored (none for a failed read, fewer than
  requested for a short one), whose number is what the second \<^verbatim>\<open>guarantee\<close> tests.
\<close>

definition initialize_dev_random_uuid :: "u8 list option \<Rightarrow> u8 list \<Rightarrow> error + u8 list" where
  "initialize_dev_random_uuid urandom buf =
     (case urandom of
        None \<Rightarrow> Inl Guarantee_failed
      | Some bytes \<Rightarrow>
          if length bytes \<noteq> kStaticSize then Inl Guarantee_failed
          else Inr (memcpy buf bytes kStaticSize))"

definition generate_uuid ::
  "(u8 list \<Rightarrow> u8 list option) \<Rightarrow> u8 list option \<Rightarrow> thread_state \<Rightarrow> error + (uuid_t \<times> thread_state)" where
  "generate_uuid SHA1 urandom st =
     (case (if \<not> next_uuid_initialized st
            then (case initialize_dev_random_uuid urandom (next_uuid st) of
                    Inl e \<Rightarrow> Inl e
                  | Inr seeded \<Rightarrow> Inr (st\<lparr>next_uuid := seeded, next_uuid_initialized := True\<rparr>))
            else Inr st) of
        Inl e \<Rightarrow> Inl e
      | Inr st \<Rightarrow>
          (case get_and_increment_uuid st of
             (result, st) \<Rightarrow>
               (case hash_uuid SHA1 result of
                  Inl e \<Rightarrow> Inl e
                | Inr result \<Rightarrow> Inr (result, st))))"

section \<open>Notions of the specification\<close>

text \<open>
  The definitions of this section follow the words of the specification, not the
  code; the theorems compare the code with them.
\<close>

text \<open>A lowercase hexadecimal digit for a value below 16.\<close>

definition hex_digit :: "nat \<Rightarrow> char" where
  "hex_digit n =
     (if n < 10 then char_of (of_char CHR ''0'' + n) else char_of (of_char CHR ''a'' + (n - 10)))"

definition hex_of_byte :: "u8 \<Rightarrow> string" where
  "hex_of_byte b = [hex_digit (unat b div 16), hex_digit (unat b mod 16)]"

text \<open>
  The canonical 8-4-4-4-12 form: the bytes in hexadecimal, two digits each, with a
  hyphen after the first 4, 6, 8 and 10 bytes. (The specification says ``after byte
  indices 4, 6, 8, 10''; its 8-4-4-4-12 grouping fixes these as numbers of bytes.)
\<close>

definition canonical_form :: "uuid_t \<Rightarrow> string" where
  "canonical_form v =
     concat (map hex_of_byte (take 4 v)) @ ''-'' @
     concat (map hex_of_byte (take 2 (drop 4 v))) @ ''-'' @
     concat (map hex_of_byte (take 2 (drop 6 v))) @ ''-'' @
     concat (map hex_of_byte (take 2 (drop 8 v))) @ ''-'' @
     concat (map hex_of_byte (drop 10 v))"

text \<open>A character among \<open>0-9a-fA-F\<close>.\<close>

definition hex_digit_char :: "char \<Rightarrow> bool" where
  "hex_digit_char c \<longleftrightarrow> c \<in> set ''0123456789abcdefABCDEF''"

text \<open>
  The separator positions, after the 8th, 12th, 16th and 20th hexadecimal digit, are
  the string indices 8, 13, 18 and 23.
\<close>

definition separator_position :: "nat \<Rightarrow> bool" where
  "separator_position j \<longleftrightarrow> j = 8 \<or> j = 13 \<or> j = 18 \<or> j = 23"

text \<open>
  A well-formed encoding: 36 characters, a hyphen at each separator position and a
  hexadecimal digit of either case everywhere else.
\<close>

definition well_formed_encoding :: "string \<Rightarrow> bool" where
  "well_formed_encoding s \<longleftrightarrow>
     length s = 36 \<and>
     list_all (\<lambda>j. if separator_position j then s ! j = CHR ''-'' else hex_digit_char (s ! j))
       [0..<36]"

text \<open>A character put in lower case; only \<open>A-Z\<close> change.\<close>

definition char_tolower :: "char \<Rightarrow> char" where
  "char_tolower c = char_of (tolower (char_to_int c))"

definition uppercase_char :: "char \<Rightarrow> bool" where
  "uppercase_char c \<longleftrightarrow> c \<in> set ''ABCDEFGHIJKLMNOPQRSTUVWXYZ''"

text \<open>A byte sequence read as a big-endian unsigned integer.\<close>

definition be_nat :: "u8 list \<Rightarrow> nat" where
  "be_nat bs = foldl (\<lambda>acc b. acc * 256 + unat b) 0 bs"

section \<open>Auxiliary notions for the decoding loop\<close>

text \<open>
  \<open>hpos i\<close> is the string index of the first hexadecimal digit of byte \<open>i\<close>, and
  \<open>jpos i\<close> the value of \<open>j\<close> when iteration \<open>i\<close> of the loop starts.
\<close>

definition hpos :: "nat \<Rightarrow> nat" where
  "hpos i =
     2 * i + (if i < 4 then 0 else if i < 6 then 1 else if i < 8 then 2 else if i < 10 then 3 else 4)"

definition jpos :: "nat \<Rightarrow> nat" where
  "jpos i = (if i = 4 \<or> i = 6 \<or> i = 8 \<or> i = 10 then hpos i - 1 else hpos i)"

text \<open>Iteration \<open>i\<close> finds what it expects in the string.\<close>

definition iter_ok :: "string \<Rightarrow> nat \<Rightarrow> bool" where
  "iter_ok s i \<longleftrightarrow>
     ((i = 4 \<or> i = 6 \<or> i = 8 \<or> i = 10) \<longrightarrow> s ! (hpos i - 1) = CHR ''-'') \<and>
     from_hexdigit (char_to_int (s ! hpos i)) \<noteq> None \<and>
     from_hexdigit (char_to_int (s ! (hpos i + 1))) \<noteq> None"

definition decoded_byte :: "string \<Rightarrow> nat \<Rightarrow> u8" where
  "decoded_byte s i =
     word_of_int (push_bit 4 (the (from_hexdigit (char_to_int (s ! hpos i))))
                  OR the (from_hexdigit (char_to_int (s ! (hpos i + 1)))))"

text \<open>The byte that the character at string index \<open>j\<close> belongs to.\<close>

definition byte_of_pos :: "nat \<Rightarrow> nat" where
  "byte_of_pos j =
     (if j < 8 then j div 2 else if j < 13 then (j - 1) div 2 else if j < 18 then (j - 2) div 2
      else if j < 23 then (j - 3) div 2 else (j - 4) div 2)"

text \<open>The characters that \<open>from_hexdigit\<close> accepts, with their values.\<close>

definition hexdigit_table :: "(char \<times> int) list" where
  "hexdigit_table =
     zip ''0123456789abcdefABCDEF''
       ([0, 1, 2, 3, 4, 5, 6, 7, 8, 9] @ [10, 11, 12, 13, 14, 15] @ [10, 11, 12, 13, 14, 15])"

section \<open>Auxiliary notions for generation\<close>

text \<open>
  The identifiers that \<open>n\<close> consecutive calls of \<open>get_and_increment_uuid\<close> return,
  in order: the values that \<open>generate_uuid\<close> hashes.
\<close>

fun pre_digest_values :: "nat \<Rightarrow> thread_state \<Rightarrow> uuid_t list" where
  "pre_digest_values 0 st = []"
| "pre_digest_values (Suc n) st =
     (case get_and_increment_uuid st of (result, st') \<Rightarrow> result # pre_digest_values n st')"

text \<open>
  A stand-in for the digest parameter, of the right output length, at which the
  theorems on generation are instantiated. It is not SHA-1.
\<close>

definition padding_digest :: "u8 list \<Rightarrow> u8 list option" where
  "padding_digest x = Some (take 20 (x @ replicate 20 0xA5))"

declare str_to_uuid_loop.simps [simp del]
declare is_nil_loop.simps [simp del]
declare increment_loop.simps [simp del]

section \<open>Bytes, nibbles and hexadecimal digits\<close>

lemma list16:
  "length (v :: 'a list) = 16 \<Longrightarrow>
   \<exists>b0 b1 b2 b3 b4 b5 b6 b7 b8 b9 b10 b11 b12 b13 b14 b15.
     v = [b0, b1, b2, b3, b4, b5, b6, b7, b8, b9, b10, b11, b12, b13, b14, b15]"
  by (simp add: eval_nat_numeral length_Suc_conv) blast

text \<open>A property of every index below a bound is checked index by index.\<close>

lemma below_16: "list_all P [0..<16] \<Longrightarrow> n < 16 \<Longrightarrow> P n"
  by (simp add: list_all_iff)

lemma below_36: "list_all P [0..<36] \<Longrightarrow> n < 36 \<Longrightarrow> P n"
  by (simp add: list_all_iff)

lemmas upt_numeral = upt_rec [of _ "numeral k" for k]

lemma unat_nib_hi: "unat (drop_bit 4 (b::u8)) = unat b div 16"
  by (simp add: drop_bit_eq_div unat_div)

lemma and_15: "(b::u8) AND 0x0f = take_bit 4 b"
  by (simp add: take_bit_eq_mask mask_eq_exp_minus_1)

lemma unat_nib_lo: "unat ((b::u8) AND 0x0f) = unat b mod 16"
  by (simp only: and_15 unsigned_take_bit_eq) (simp add: take_bit_eq_mod)

lemma unat_nib_hi_less: "unat (b::u8) div 16 < 16"
  using unsigned_less [of b, where 'a = nat] by simp

lemma buf_hex_digit: "n < 16 \<Longrightarrow> ''0123456789abcdef'' ! n = hex_digit n"
  by (erule below_16 [rotated])
     (simp add: upt_numeral hex_digit_def char_of_def bit_Suc_0_iff)

lemma hex_digit_lower:
  "n < 16 \<Longrightarrow> hex_digit n \<in> set ''0123456789abcdef'' \<and> hex_digit n \<noteq> CHR ''-''"
  by (erule below_16 [rotated])
     (simp add: upt_numeral hex_digit_def char_of_def bit_Suc_0_iff)

lemma push_hex_eq: "push_hex s b = s @ hex_of_byte b"
  using unat_nib_hi_less [of b]
  by (simp add: push_hex_def hex_of_byte_def Let_def unat_nib_hi unat_nib_lo buf_hex_digit)

section \<open>Hexadecimal digits read back\<close>

lemma of_char_int_range: "0 \<le> (of_char c :: int) \<and> (of_char c :: int) < 256"
proof -
  have "(of_char c :: int) = int (of_char c)" by (simp add: of_nat_of_char)
  moreover have "(of_char c :: nat) < 256" by simp
  ultimately show ?thesis by linarith
qed

lemma from_hexdigit_table:
  "(c, h) \<in> set hexdigit_table \<Longrightarrow> from_hexdigit (char_to_int c) = Some h"
  by (auto simp: hexdigit_table_def from_hexdigit_def char_to_int_def isdigit_def tolower_def)

lemma hexdigit_table_rows:
  "n < 16 \<Longrightarrow>
     (n < 10 \<longrightarrow> (char_of (48 + int n), int n) \<in> set hexdigit_table) \<and>
     (10 \<le> n \<longrightarrow> (char_of (55 + int n), int n) \<in> set hexdigit_table) \<and>
     (10 \<le> n \<longrightarrow> (char_of (87 + int n), int n) \<in> set hexdigit_table)"
  by (erule below_16 [rotated]) (simp add: upt_numeral hexdigit_table_def char_of_def)

lemma from_hexdigit_char_cases:
  assumes "from_hexdigit (char_to_int c) = Some h"
  shows "(c, h) \<in> set hexdigit_table"
proof -
  define x :: int where "x = of_char c"
  have c: "c = char_of x" by (simp add: x_def)
  have r: "0 \<le> x" "x < 256" using of_char_int_range [of c] by (simp_all add: x_def)
  from assms have h:
    "(48 \<le> x \<and> x \<le> 57 \<and> h = x - 48) \<or> (65 \<le> x \<and> x \<le> 70 \<and> h = x - 55) \<or>
     (97 \<le> x \<and> x \<le> 102 \<and> h = x - 87)"
    using r unfolding from_hexdigit_def char_to_int_def isdigit_def tolower_def Let_def
      x_def [symmetric]
    by (simp split: if_splits)
  define n where "n = nat h"
  have n: "h = int n" "n < 16" using h by (auto simp: n_def)
  from h show ?thesis
  proof (elim disjE conjE)
    assume "48 \<le> x" "x \<le> 57" "h = x - 48"
    then have "n < 10" "x = 48 + int n" by (auto simp: n_def)
    then show ?thesis using hexdigit_table_rows [OF n(2)] by (simp add: c n(1))
  next
    assume "65 \<le> x" "x \<le> 70" "h = x - 55"
    then have "10 \<le> n" "x = 55 + int n" by (auto simp: n_def)
    then show ?thesis using hexdigit_table_rows [OF n(2)] by (simp add: c n(1))
  next
    assume "97 \<le> x" "x \<le> 102" "h = x - 87"
    then have "10 \<le> n" "x = 87 + int n" by (auto simp: n_def)
    then show ?thesis using hexdigit_table_rows [OF n(2)] by (simp add: c n(1))
  qed
qed

lemma hex_digit_char_iff: "hex_digit_char c \<longleftrightarrow> from_hexdigit (char_to_int c) \<noteq> None"
proof
  assume "hex_digit_char c"
  then show "from_hexdigit (char_to_int c) \<noteq> None"
    by (auto simp: hex_digit_char_def from_hexdigit_def char_to_int_def isdigit_def tolower_def)
next
  assume "from_hexdigit (char_to_int c) \<noteq> None"
  then obtain h where "from_hexdigit (char_to_int c) = Some h" by blast
  from from_hexdigit_char_cases [OF this] show "hex_digit_char c"
    by (auto simp: hex_digit_char_def hexdigit_table_def)
qed

lemma from_hexdigit_hex_digit:
  "n < 16 \<Longrightarrow> from_hexdigit (char_to_int (hex_digit n)) = Some (int n)"
  by (erule below_16 [rotated])
     (simp add: upt_numeral hex_digit_def char_of_def bit_Suc_0_iff from_hexdigit_def
        char_to_int_def isdigit_def tolower_def)

lemma word_recombine: "push_bit 4 (drop_bit 4 b) OR (b AND 0x0f) = (b::u8)"
  by (simp only: and_15) (rule bit_eqI, auto simp add: bit_simps)

lemma recombine_nibbles:
  "word_of_int (push_bit 4 (int (unat b div 16)) OR int (unat b mod 16)) = (b::u8)"
proof -
  have "int (unat b div 16) = uint (drop_bit 4 b)"
    by (simp add: unat_nib_hi [symmetric])
  moreover have "int (unat b mod 16) = uint (b AND 0x0f)"
    by (simp only: unat_nib_lo [symmetric]) simp
  ultimately show ?thesis
    by (metis push_bit_of_int word_of_int_uint word_recombine word_wi_log_defs(3))
qed

section \<open>The encoder\<close>

lemma uuid_to_str_explicit:
  "uuid_to_str [b0, b1, b2, b3, b4, b5, b6, b7, b8, b9, b10, b11, b12, b13, b14, b15] =
     hex_of_byte b0 @ hex_of_byte b1 @ hex_of_byte b2 @ hex_of_byte b3 @ ''-'' @
     hex_of_byte b4 @ hex_of_byte b5 @ ''-'' @ hex_of_byte b6 @ hex_of_byte b7 @ ''-'' @
     hex_of_byte b8 @ hex_of_byte b9 @ ''-'' @
     hex_of_byte b10 @ hex_of_byte b11 @ hex_of_byte b12 @ hex_of_byte b13 @
     hex_of_byte b14 @ hex_of_byte b15"
  by (simp add: uuid_to_str_def push_hex_range_def push_hex_eq kStaticSize_def
        upt_numeral Let_def)

lemma uuid_to_str_canonical: "length v = 16 \<Longrightarrow> uuid_to_str v = canonical_form v"
  by (drule list16) (auto simp: uuid_to_str_explicit canonical_form_def)

lemma length_uuid_to_str: "length v = 16 \<Longrightarrow> length (uuid_to_str v) = 36"
  by (drule list16) (auto simp: uuid_to_str_explicit hex_of_byte_def)

lemma uuid_to_str_nth:
  "length v = 16 \<Longrightarrow> k < 16 \<Longrightarrow>
     uuid_to_str v ! hpos k = hex_digit (unat (v ! k) div 16) \<and>
     uuid_to_str v ! (hpos k + 1) = hex_digit (unat (v ! k) mod 16)"
  apply (drule list16)
  apply (elim exE)
  apply (erule below_16 [rotated])
  apply (simp add: upt_numeral uuid_to_str_explicit hex_of_byte_def hpos_def)
  done

lemma uuid_to_str_hyphens:
  "length v = 16 \<Longrightarrow>
     uuid_to_str v ! 8 = CHR ''-'' \<and> uuid_to_str v ! 13 = CHR ''-'' \<and>
     uuid_to_str v ! 18 = CHR ''-'' \<and> uuid_to_str v ! 23 = CHR ''-''"
  by (drule list16) (auto simp: uuid_to_str_explicit hex_of_byte_def)

lemma position_cases:
  "j < 36 \<Longrightarrow>
   separator_position j \<or>
   (byte_of_pos j < 16 \<and> (j = hpos (byte_of_pos j) \<or> j = hpos (byte_of_pos j) + 1))"
  by (erule below_36 [rotated])
     (simp add: upt_numeral separator_position_def byte_of_pos_def hpos_def)

lemma hpos_props:
  "k < 16 \<Longrightarrow>
   hpos k + 1 < 36 \<and> \<not> separator_position (hpos k) \<and> \<not> separator_position (hpos k + 1)"
  by (erule below_16 [rotated])
     (simp add: upt_numeral separator_position_def hpos_def)

lemma uuid_to_str_digit:
  assumes len: "length v = 16" and j: "j < 36" and ns: "\<not> separator_position j"
  shows "uuid_to_str v ! j \<in> set ''0123456789abcdef'' \<and> uuid_to_str v ! j \<noteq> CHR ''-''"
proof -
  from position_cases [OF j] ns
  have k: "byte_of_pos j < 16"
    and pos: "j = hpos (byte_of_pos j) \<or> j = hpos (byte_of_pos j) + 1"
    by auto
  from pos show ?thesis
  proof
    assume "j = hpos (byte_of_pos j)"
    then have "uuid_to_str v ! j = hex_digit (unat (v ! byte_of_pos j) div 16)"
      using uuid_to_str_nth [OF len k] by simp
    then show ?thesis using hex_digit_lower [OF unat_nib_hi_less] by simp
  next
    assume "j = hpos (byte_of_pos j) + 1"
    then have "uuid_to_str v ! j = hex_digit (unat (v ! byte_of_pos j) mod 16)"
      using uuid_to_str_nth [OF len k] by simp
    then show ?thesis using hex_digit_lower [of "unat (v ! byte_of_pos j) mod 16"] by simp
  qed
qed

lemma uuid_to_str_separator:
  "length v = 16 \<Longrightarrow> separator_position j \<Longrightarrow> uuid_to_str v ! j = CHR ''-''"
  using uuid_to_str_hyphens [of v] by (auto simp: separator_position_def)

lemma uuid_to_str_zero:
  "uuid_to_str (replicate kStaticSize 0) = ''00000000-0000-0000-0000-000000000000''"
proof -
  have "replicate kStaticSize (0::u8) = [0, 0, 0, 0, 0, 0, 0, 0, 0, 0, 0, 0, 0, 0, 0, 0]"
    by (simp add: kStaticSize_def eval_nat_numeral)
  then show ?thesis
    by (simp only: uuid_to_str_explicit)
       (simp add: hex_of_byte_def hex_digit_def char_of_def bit_Suc_0_iff)
qed

text \<open>
  Claim C6. For every 16-byte value \<open>v\<close>, \<open>uuid_to_str v\<close> is the canonical
  8-4-4-4-12 form of the specification: it has 36 characters, a hyphen exactly at the
  string indices 8, 13, 18 and 23 (after the first 4, 6, 8 and 10 bytes, so that the
  groups hold 8, 4, 4, 4 and 12 digits), and a lowercase hexadecimal digit at each
  of the other 32 indices. The encoding of 16 zero bytes is
  \<open>00000000-0000-0000-0000-000000000000\<close>.
\<close>

theorem uuid_to_str_fixed_form:
  "length v = kStaticSize \<Longrightarrow>
     uuid_to_str v = canonical_form v \<and>
     length (uuid_to_str v) = 36 \<and>
     (\<forall>j<36. (uuid_to_str v ! j = CHR ''-'') = separator_position j) \<and>
     (\<forall>j<36. \<not> separator_position j \<longrightarrow> uuid_to_str v ! j \<in> set ''0123456789abcdef'') \<and>
     uuid_to_str (replicate kStaticSize 0) = ''00000000-0000-0000-0000-000000000000''"
proof -
  assume "length v = kStaticSize"
  then have len: "length v = 16" by (simp add: kStaticSize_def)
  show ?thesis
  proof (intro conjI allI impI)
    show "uuid_to_str v = canonical_form v" by (rule uuid_to_str_canonical [OF len])
    show "length (uuid_to_str v) = 36" by (rule length_uuid_to_str [OF len])
    show "(uuid_to_str v ! j = CHR ''-'') = separator_position j" if "j < 36" for j
      using uuid_to_str_digit [OF len that] uuid_to_str_separator [OF len, of j] by blast
    show "uuid_to_str v ! j \<in> set ''0123456789abcdef''"
      if "j < 36" "\<not> separator_position j" for j
      using uuid_to_str_digit [OF len that] by (rule conjunct1)
    show "uuid_to_str (replicate kStaticSize 0) = ''00000000-0000-0000-0000-000000000000''"
      by (rule uuid_to_str_zero)
  qed
qed

theorem uuid_to_str_fixed_form_witness:
  "length [0x01, 0x23, 0x45, 0x67, 0x89, 0xab, 0xcd, 0xef,
           0x10, 0x32, 0x54, 0x76, 0x98, 0xba, 0xdc, 0xfe :: u8] = kStaticSize \<and>
   uuid_to_str [0x01, 0x23, 0x45, 0x67, 0x89, 0xab, 0xcd, 0xef,
                0x10, 0x32, 0x54, 0x76, 0x98, 0xba, 0xdc, 0xfe] =
     ''01234567-89ab-cdef-1032-547698badcfe'' \<and>
   uuid_to_str [0x01, 0x23, 0x45, 0x67, 0x89, 0xab, 0xcd, 0xef,
                0x10, 0x32, 0x54, 0x76, 0x98, 0xba, 0xdc, 0xfe] =
     canonical_form [0x01, 0x23, 0x45, 0x67, 0x89, 0xab, 0xcd, 0xef,
                     0x10, 0x32, 0x54, 0x76, 0x98, 0xba, 0xdc, 0xfe] \<and>
   length (uuid_to_str [0x01, 0x23, 0x45, 0x67, 0x89, 0xab, 0xcd, 0xef,
                        0x10, 0x32, 0x54, 0x76, 0x98, 0xba, 0xdc, 0xfe]) = 36"
proof -
  let ?v = "[0x01, 0x23, 0x45, 0x67, 0x89, 0xab, 0xcd, 0xef,
             0x10, 0x32, 0x54, 0x76, 0x98, 0xba, 0xdc, 0xfe :: u8]"
  have len: "length ?v = kStaticSize" by (simp add: kStaticSize_def)
  have enc: "uuid_to_str ?v = ''01234567-89ab-cdef-1032-547698badcfe''" by code_simp
  from uuid_to_str_fixed_form [OF len]
  have form: "uuid_to_str ?v = canonical_form ?v" and n: "length (uuid_to_str ?v) = 36"
    by blast+
  show ?thesis by (intro conjI) (rule len enc form n)+
qed

section \<open>The special values\<close>

text \<open>
  Claim C8. \<open>nil_uuid\<close> is nil; a default-constructed identifier is unset and not
  nil. The unset sentinel is the fixed pattern \<open>UNSET_UUID_____\<close> followed by a zero
  byte, which is not all zero and differs from the nil value of 16 zero bytes. The
  \<^verbatim>\<open>rassert\<close> of the constructor, that the literal has \<open>kStaticSize - 1\<close>
  characters, holds.
\<close>

theorem nil_and_unset_values:
  "is_nil nil_uuid \<and> is_unset uuid_t \<and> \<not> is_nil uuid_t \<and>
   uuid_t \<noteq> nil_uuid \<and> \<not> is_unset nil_uuid \<and>
   strlen (c_str magic_unset_uuid) = kStaticSize - 1 \<and>
   nil_uuid = replicate 16 0 \<and>
   uuid_t = map of_char ''UNSET_UUID_____'' @ [0] \<and>
   length uuid_t = kStaticSize \<and> length nil_uuid = kStaticSize"
  by code_simp

section \<open>The decoding loop\<close>

lemma jpos_Suc: "i < 16 \<Longrightarrow> jpos (Suc i) = hpos i + 2"
  by (erule below_16 [rotated]) (simp add: upt_numeral jpos_def hpos_def)

lemma hpos_pred:
  "i = 4 \<or> i = 6 \<or> i = 8 \<or> i = 10 \<Longrightarrow>
     hpos i - 1 + 1 = hpos i \<and> hpos i - 1 < 36 \<and> separator_position (hpos i - 1)"
  by (auto simp: hpos_def separator_position_def)

lemma switch_default_ok:
  "i < 16 \<Longrightarrow> from_hexdigit (char_to_int (s ! hpos i)) \<noteq> None \<Longrightarrow>
   from_hexdigit (char_to_int (s ! (hpos i + 1))) \<noteq> None \<Longrightarrow>
   switch_default s i (hpos i) d = Inr (Some (jpos (Suc i), d[i := decoded_byte s i]))"
  using hpos_props [of i]
  by (auto simp: switch_default_def kStringSize_def decoded_byte_def jpos_Suc Let_def)

lemma switch_default_bad:
  "i < 16 \<Longrightarrow>
   from_hexdigit (char_to_int (s ! hpos i)) = None \<or>
   from_hexdigit (char_to_int (s ! (hpos i + 1))) = None \<Longrightarrow>
   switch_default s i (hpos i) d = Inr None"
  using hpos_props [of i]
  by (auto simp: switch_default_def kStringSize_def Let_def split: option.splits)

lemma switch_body_ok:
  assumes i: "i < 16" and ok: "iter_ok s i"
  shows "switch_body s i (jpos i) d = Inr (Some (jpos (Suc i), d[i := decoded_byte s i]))"
proof (cases "i = 4 \<or> i = 6 \<or> i = 8 \<or> i = 10")
  case True
  with i ok show ?thesis
    using hpos_pred [OF True] switch_default_ok [of i s d]
    by (simp add: switch_body_def iter_ok_def jpos_def kStringSize_def)
next
  case False
  with i ok show ?thesis
    using switch_default_ok [of i s d]
    by (simp add: switch_body_def iter_ok_def jpos_def)
qed

lemma switch_body_bad:
  assumes i: "i < 16" and bad: "\<not> iter_ok s i"
  shows "switch_body s i (jpos i) d = Inr None"
proof (cases "i = 4 \<or> i = 6 \<or> i = 8 \<or> i = 10")
  case True
  with i bad show ?thesis
    using hpos_pred [OF True] switch_default_bad [of i s d]
    by (auto simp add: switch_body_def iter_ok_def jpos_def kStringSize_def)
next
  case False
  with i bad show ?thesis
    using switch_default_bad [of i s d]
    by (auto simp add: switch_body_def iter_ok_def jpos_def)
qed

text \<open>
  When every remaining iteration finds what it expects, the loop returns true, keeps
  the bytes below \<open>i\<close> and stores the decoded bytes from \<open>i\<close> on.
\<close>

lemma loop_ok:
  "i \<le> 16 \<Longrightarrow> (\<forall>k. i \<le> k \<and> k < 16 \<longrightarrow> iter_ok s k) \<Longrightarrow>
   \<exists>d'. str_to_uuid_loop s i (jpos i) d = Inr (True, d') \<and> length d' = length d \<and>
        (\<forall>k < i. d' ! k = d ! k) \<and>
        (\<forall>k. i \<le> k \<and> k < 16 \<and> k < length d \<longrightarrow> d' ! k = decoded_byte s k)"
proof (induction "16 - i" arbitrary: i d)
  case 0
  then have "i = 16" by simp
  then show ?case
    by (subst str_to_uuid_loop.simps)
       (auto simp add: kStaticSize_def kStringSize_def jpos_def hpos_def)
next
  case (Suc n)
  then have i: "i < 16" by simp
  have ok: "iter_ok s i" using Suc.prems i by simp
  let ?d = "d[i := decoded_byte s i]"
  have "n = 16 - Suc i" "Suc i \<le> 16" "\<forall>k. Suc i \<le> k \<and> k < 16 \<longrightarrow> iter_ok s k"
    using Suc by auto
  from Suc.hyps(1) [OF this, of ?d] obtain d' where
    d': "str_to_uuid_loop s (Suc i) (jpos (Suc i)) ?d = Inr (True, d')"
      "length d' = length d" "\<forall>k < Suc i. d' ! k = ?d ! k"
      "\<forall>k. Suc i \<le> k \<and> k < 16 \<and> k < length d \<longrightarrow> d' ! k = decoded_byte s k"
    by auto
  have "str_to_uuid_loop s i (jpos i) d = Inr (True, d')"
    using i d'(1) switch_body_ok [OF i ok, of d]
    by (subst str_to_uuid_loop.simps) (simp add: kStaticSize_def)
  moreover have "\<forall>k < i. d' ! k = d ! k" using d'(3) by auto
  moreover have "\<forall>k. i \<le> k \<and> k < 16 \<and> k < length d \<longrightarrow> d' ! k = decoded_byte s k"
  proof (intro allI impI)
    fix k assume k: "i \<le> k \<and> k < 16 \<and> k < length d"
    show "d' ! k = decoded_byte s k"
    proof (cases "k = i")
      case True
      then show ?thesis using d'(3) k by simp
    next
      case False
      then show ?thesis using d'(4) k by simp
    qed
  qed
  ultimately show ?case using d'(2) by blast
qed

text \<open>When some remaining iteration does not, the loop returns false.\<close>

lemma loop_bad:
  "i \<le> 16 \<Longrightarrow> (\<exists>k. i \<le> k \<and> k < 16 \<and> \<not> iter_ok s k) \<Longrightarrow>
   \<exists>d'. str_to_uuid_loop s i (jpos i) d = Inr (False, d') \<and> length d' = length d"
proof (induction "16 - i" arbitrary: i d)
  case 0
  then have False by auto
  then show ?case ..
next
  case (Suc n)
  then have i: "i < 16" by simp
  show ?case
  proof (cases "iter_ok s i")
    case False
    then show ?thesis
      using i switch_body_bad [OF i False, of d]
      by (subst str_to_uuid_loop.simps) (simp add: kStaticSize_def)
  next
    case True
    let ?d = "d[i := decoded_byte s i]"
    from Suc.prems True obtain k where "i \<le> k \<and> k < 16 \<and> \<not> iter_ok s k" "k \<noteq> i"
      by blast
    then have "\<exists>k. Suc i \<le> k \<and> k < 16 \<and> \<not> iter_ok s k"
      by (metis Suc_leI le_neq_implies_less)
    moreover have "n = 16 - Suc i" "Suc i \<le> 16" using Suc by auto
    ultimately obtain d' where
      "str_to_uuid_loop s (Suc i) (jpos (Suc i)) ?d = Inr (False, d')" "length d' = length d"
      using Suc.hyps(1) [of "Suc i" ?d] by auto
    then show ?thesis
      using i switch_body_ok [OF i True, of d]
      by (subst str_to_uuid_loop.simps) (simp add: kStaticSize_def)
  qed
qed

lemma jpos_0: "jpos 0 = 0"
  by (simp add: jpos_def hpos_def)

lemma str_to_uuid_accepts:
  assumes len: "length s = 36" and ok: "\<forall>k<16. iter_ok s k" and out: "length out = 16"
  shows "str_to_uuid s out = Inr (True, map (decoded_byte s) [0..<16])"
proof -
  from loop_ok [of 0 s out] ok obtain d' where
    d': "str_to_uuid_loop s 0 0 out = Inr (True, d')" "length d' = length out"
      "\<forall>k. k < 16 \<and> k < length out \<longrightarrow> d' ! k = decoded_byte s k"
    by (auto simp: jpos_0)
  have "d' = map (decoded_byte s) [0..<16]"
    using d'(2,3) out by (intro nth_equalityI) auto
  then show ?thesis using d'(1) len by (simp add: str_to_uuid_def kStaticSize_def)
qed

lemma str_to_uuid_flag:
  "\<exists>out'. str_to_uuid s out = Inr (length s = 36 \<and> (\<forall>k<16. iter_ok s k), out') \<and>
          length out' = length out"
proof (cases "length s = 36")
  case False
  then show ?thesis by (simp add: str_to_uuid_def kStaticSize_def)
next
  case len: True
  show ?thesis
  proof (cases "\<forall>k<16. iter_ok s k")
    case True
    with loop_ok [of 0 s out] len show ?thesis
      by (auto simp: jpos_0 str_to_uuid_def kStaticSize_def)
  next
    case False
    with loop_bad [of 0 s out] len show ?thesis
      by (auto simp: jpos_0 str_to_uuid_def kStaticSize_def)
  qed
qed

lemma well_formed_iff:
  "well_formed_encoding s \<longleftrightarrow> length s = 36 \<and> (\<forall>k<16. iter_ok s k)"
proof -
  let ?Q = "\<lambda>j. if separator_position j then s ! j = CHR ''-'' else hex_digit_char (s ! j)"
  have "(\<forall>j<36. ?Q j) \<longleftrightarrow> (\<forall>k<16. iter_ok s k)"
  proof
    assume Q: "\<forall>j<36. ?Q j"
    show "\<forall>k<16. iter_ok s k"
    proof (intro allI impI)
      fix k :: nat assume k: "k < 16"
      from hpos_props [OF k] Q
      have "hex_digit_char (s ! hpos k)" "hex_digit_char (s ! (hpos k + 1))"
        by (metis add_lessD1)+
      moreover have "s ! (hpos k - 1) = CHR ''-''" if "k = 4 \<or> k = 6 \<or> k = 8 \<or> k = 10"
        using hpos_pred [OF that] Q by metis
      ultimately show "iter_ok s k" by (simp add: iter_ok_def hex_digit_char_iff)
    qed
  next
    assume ok: "\<forall>k<16. iter_ok s k"
    show "\<forall>j<36. ?Q j"
    proof (intro allI impI)
      fix j :: nat assume j: "j < 36"
      show "?Q j"
      proof (cases "separator_position j")
        case True
        then have "s ! j = CHR ''-''"
          using ok [rule_format, of 4] ok [rule_format, of 6] ok [rule_format, of 8]
            ok [rule_format, of 10]
          by (auto simp: separator_position_def iter_ok_def hpos_def)
        with True show ?thesis by simp
      next
        case False
        with position_cases [OF j]
        have k: "byte_of_pos j < 16"
          and pos: "j = hpos (byte_of_pos j) \<or> j = hpos (byte_of_pos j) + 1"
          by auto
        from ok k have "iter_ok s (byte_of_pos j)" by blast
        then have "hex_digit_char (s ! hpos (byte_of_pos j))"
          "hex_digit_char (s ! (hpos (byte_of_pos j) + 1))"
          by (simp_all add: iter_ok_def hex_digit_char_iff)
        with pos have "hex_digit_char (s ! j)" by metis
        with False show ?thesis by simp
      qed
    qed
  qed
  moreover have "list_all ?Q [0..<36] \<longleftrightarrow> (\<forall>j<36. ?Q j)"
    by (auto simp add: list_all_iff)
  ultimately show ?thesis unfolding well_formed_encoding_def by (simp only:)
qed

text \<open>
  Claim C4. For every string \<open>s\<close> and every content of the output parameter,
  \<open>str_to_uuid\<close> returns normally (no \<^verbatim>\<open>rassert\<close> fires, no index leaves the
  string), and the flag it returns is true exactly when \<open>s\<close> is a well-formed
  encoding. So it returns false exactly when the length is not 36, or one of the
  four separator positions does not hold a hyphen, or one of the other positions
  holds a character outside \<open>0-9a-fA-F\<close>; uppercase digits are accepted.
\<close>

theorem str_to_uuid_false_iff_malformed:
  "\<exists>out'. str_to_uuid s out = Inr (well_formed_encoding s, out')"
  using str_to_uuid_flag [of s out] by (auto simp: well_formed_iff)

theorem str_to_uuid_false_iff_malformed_witness:
  "well_formed_encoding ''ABCDEF01-2345-6789-abcd-ef0123456789'' \<and>
   (\<exists>out'. str_to_uuid ''ABCDEF01-2345-6789-abcd-ef0123456789'' nil_uuid = Inr (True, out')) \<and>
   \<not> well_formed_encoding ''ABCD-F01-2345-6789-abcd-ef0123456789'' \<and>
   (\<exists>out'. str_to_uuid ''ABCD-F01-2345-6789-abcd-ef0123456789'' nil_uuid = Inr (False, out'))"
proof -
  have good: "well_formed_encoding ''ABCDEF01-2345-6789-abcd-ef0123456789''"
    by code_simp
  have bad: "\<not> well_formed_encoding ''ABCD-F01-2345-6789-abcd-ef0123456789''"
    by code_simp
  from str_to_uuid_false_iff_malformed [of "''ABCDEF01-2345-6789-abcd-ef0123456789''" nil_uuid]
    str_to_uuid_false_iff_malformed [of "''ABCD-F01-2345-6789-abcd-ef0123456789''" nil_uuid]
    good bad
  show ?thesis by simp
qed

text \<open>
  Claim C5. For every string \<open>s\<close>, \<open>is_uuid s\<close> returns normally, so neither
  the exception of the throwing \<open>str_to_uuid\<close> nor an abort passes it, and its
  result is the flag that the non-throwing \<open>str_to_uuid\<close> returns for \<open>s\<close>, whatever
  the output parameter holds.
\<close>

theorem is_uuid_iff_str_to_uuid:
  "\<exists>ok out'. str_to_uuid s out = Inr (ok, out') \<and> is_uuid s = Inr ok"
proof -
  define ok where "ok \<longleftrightarrow> length s = 36 \<and> (\<forall>k<16. iter_ok s k)"
  from str_to_uuid_flag [of s out, folded ok_def]
  obtain out' where 1: "str_to_uuid s out = Inr (ok, out')" by blast
  from str_to_uuid_flag [of s uuid_t, folded ok_def]
  obtain ret where 2: "str_to_uuid s uuid_t = Inr (ok, ret)" by blast
  have "is_uuid s = Inr ok"
    by (cases ok) (simp_all add: is_uuid_def str_to_uuid_throw_def 2)
  with 1 show ?thesis by blast
qed

theorem is_uuid_iff_str_to_uuid_witness:
  "(\<exists>out'. str_to_uuid ''not-a-uuid'' nil_uuid = Inr (False, out')) \<and>
   is_uuid ''not-a-uuid'' = Inr False"
proof -
  have "is_uuid ''not-a-uuid'' = Inr False" by code_simp
  with is_uuid_iff_str_to_uuid [of "''not-a-uuid''" nil_uuid] show ?thesis by auto
qed

text \<open>
  Claim C10. A failed decode does not leave the output parameter as it was: for the
  36-character string \<open>abcdef01-2345-67zz-0000-000000000000\<close>, whose first seven
  bytes are valid and whose eighth is not, \<open>str_to_uuid\<close> returns false after it has
  stored the seven decoded bytes over the caller's identifier.
\<close>

theorem str_to_uuid_failure_overwrites:
  "length ''abcdef01-2345-67zz-0000-000000000000'' = 36 \<and>
   str_to_uuid ''abcdef01-2345-67zz-0000-000000000000'' nil_uuid =
     Inr (False, [0xab, 0xcd, 0xef, 0x01, 0x23, 0x45, 0x67, 0, 0, 0, 0, 0, 0, 0, 0, 0]) \<and>
   nil_uuid \<noteq> [0xab, 0xcd, 0xef, 0x01, 0x23, 0x45, 0x67, 0, 0, 0, 0, 0, 0, 0, 0, 0] \<and>
   (\<exists>str uuid uuid'. length str = 36 \<and> length uuid = kStaticSize \<and>
      str_to_uuid str uuid = Inr (False, uuid') \<and> uuid' \<noteq> uuid)"
proof -
  let ?s = "''abcdef01-2345-67zz-0000-000000000000''"
  let ?d = "[0xab, 0xcd, 0xef, 0x01, 0x23, 0x45, 0x67, 0, 0, 0, 0, 0, 0, 0, 0, 0 :: u8]"
  have 1: "length ?s = 36" by simp
  have 2: "str_to_uuid ?s nil_uuid = Inr (False, ?d)" by code_simp
  have 3: "nil_uuid \<noteq> ?d" by code_simp
  have 4: "length nil_uuid = kStaticSize" by code_simp
  from 1 2 3 4 have "\<exists>str uuid uuid'. length str = 36 \<and> length uuid = kStaticSize \<and>
      str_to_uuid str uuid = Inr (False, uuid') \<and> uuid' \<noteq> uuid"
    by (intro exI [of _ ?s] exI [of _ nil_uuid] exI [of _ ?d]) (simp only: not_sym simp_thms)
  with 1 2 3 show ?thesis by (intro conjI)
qed

section \<open>Round trip\<close>

lemma memcmp_eq_iff:
  "length xs = n \<Longrightarrow> length ys = n \<Longrightarrow> memcmp xs ys n = 0 \<longleftrightarrow> xs = ys"
  by (induction xs ys n rule: memcmp.induct) auto

lemma iter_ok_uuid_to_str:
  assumes len: "length v = 16" and k: "k < 16"
  shows "iter_ok (uuid_to_str v) k \<and> decoded_byte (uuid_to_str v) k = v ! k"
proof -
  from uuid_to_str_nth [OF len k]
  have hi: "uuid_to_str v ! hpos k = hex_digit (unat (v ! k) div 16)"
    and lo: "uuid_to_str v ! (hpos k + 1) = hex_digit (unat (v ! k) mod 16)"
    by simp_all
  have fhi: "from_hexdigit (char_to_int (uuid_to_str v ! hpos k)) = Some (int (unat (v ! k) div 16))"
    unfolding hi by (rule from_hexdigit_hex_digit [OF unat_nib_hi_less])
  have flo: "from_hexdigit (char_to_int (uuid_to_str v ! (hpos k + 1))) = Some (int (unat (v ! k) mod 16))"
    unfolding lo by (rule from_hexdigit_hex_digit) simp
  have "uuid_to_str v ! (hpos k - 1) = CHR ''-''" if "k = 4 \<or> k = 6 \<or> k = 8 \<or> k = 10"
    using hpos_pred [OF that] uuid_to_str_separator [OF len] by blast
  then have "iter_ok (uuid_to_str v) k" unfolding iter_ok_def fhi flo by simp
  moreover have "decoded_byte (uuid_to_str v) k = v ! k"
    unfolding decoded_byte_def fhi flo by (simp only: option.sel recombine_nibbles)
  ultimately show ?thesis ..
qed

text \<open>
  Claim C1. For every 16-byte identifier \<open>v\<close>, decoding \<open>uuid_to_str v\<close> into any
  identifier returns true and leaves exactly \<open>v\<close> in it: the two compare equal under
  \<^verbatim>\<open>operator==\<close>, and are the same bytes.
\<close>

theorem str_to_uuid_uuid_to_str:
  assumes v: "length v = kStaticSize" and out: "length out = kStaticSize"
  shows "\<exists>out'. str_to_uuid (uuid_to_str v) out = Inr (True, out') \<and> uuid_eq out' v \<and> out' = v"
proof -
  from v out have len: "length v = 16" "length out = 16" by (simp_all add: kStaticSize_def)
  have "map (decoded_byte (uuid_to_str v)) [0..<16] = v"
    using len(1) iter_ok_uuid_to_str [OF len(1)] by (intro nth_equalityI) auto
  moreover have "str_to_uuid (uuid_to_str v) out =
      Inr (True, map (decoded_byte (uuid_to_str v)) [0..<16])"
    using iter_ok_uuid_to_str [OF len(1)]
    by (intro str_to_uuid_accepts length_uuid_to_str len) blast
  ultimately show ?thesis using v by (simp add: uuid_eq_def memcmp_eq_iff)
qed

theorem str_to_uuid_uuid_to_str_witness:
  "length [0x00, 0x11, 0x22, 0x33, 0x44, 0x55, 0x66, 0x77,
           0x88, 0x99, 0xaa, 0xbb, 0xcc, 0xdd, 0xee, 0xff :: u8] = kStaticSize \<and>
   length uuid_t = kStaticSize \<and>
   str_to_uuid (uuid_to_str [0x00, 0x11, 0x22, 0x33, 0x44, 0x55, 0x66, 0x77,
                             0x88, 0x99, 0xaa, 0xbb, 0xcc, 0xdd, 0xee, 0xff]) uuid_t =
     Inr (True, [0x00, 0x11, 0x22, 0x33, 0x44, 0x55, 0x66, 0x77,
                 0x88, 0x99, 0xaa, 0xbb, 0xcc, 0xdd, 0xee, 0xff])"
proof -
  let ?v = "[0x00, 0x11, 0x22, 0x33, 0x44, 0x55, 0x66, 0x77,
             0x88, 0x99, 0xaa, 0xbb, 0xcc, 0xdd, 0xee, 0xff :: u8]"
  have v: "length ?v = kStaticSize" by (simp add: kStaticSize_def)
  have out: "length uuid_t = kStaticSize" by code_simp
  from str_to_uuid_uuid_to_str [OF v out]
  have "str_to_uuid (uuid_to_str ?v) uuid_t = Inr (True, ?v)" by blast
  with v out show ?thesis by (intro conjI)
qed

section \<open>Case normalisation\<close>

lemma or_nibbles: 
  assumes "0 \<le> l" "l < 16"
  shows "push_bit 4 (h::int) OR l = 16 * h + l"
proof -
  have l: "take_bit 4 l = l" using assms by (simp add: take_bit_int_eq_self)
  have "push_bit 4 h + l = push_bit 4 h OR l"
  proof (rule disjunctive_add)
    fix n
    have "bit l n \<Longrightarrow> n < 4" using l by (metis bit_take_bit_iff)
    then show "\<not> bit (push_bit 4 h) n \<or> \<not> bit l n"
      by (auto simp: bit_push_bit_iff)
  qed
  then show ?thesis by (simp add: push_bit_eq_mult)
qed

lemma nibbles_of_pair:
  assumes "hn < 16" "ln < 16"
  shows "unat (word_of_int (push_bit 4 (int hn) OR int ln) :: u8) = 16 * hn + ln"
proof -
  have e: "push_bit 4 (int hn) OR int ln = int (16 * hn + ln)"
    using or_nibbles [of "int ln" "int hn"] assms by simp
  have small: "16 * hn + ln < 256" using assms by simp
  have "unat (word_of_int (int n) :: u8) = n" if "n < 256" for n
    using that by (simp add: unat_of_nat)
  from this [OF small] show ?thesis unfolding e .
qed

lemma table_tolower_all:
  "list_all (\<lambda>(c, h). 0 \<le> h \<and> h < 16 \<and> hex_digit (nat h) = char_tolower c \<and>
     from_hexdigit (char_to_int (char_tolower c)) = Some h) hexdigit_table"
  by (simp add: hexdigit_table_def hex_digit_def char_tolower_def char_to_int_def tolower_def
        char_of_def from_hexdigit_def isdigit_def bit_Suc_0_iff)

lemma table_tolower:
  "(c, h) \<in> set hexdigit_table \<Longrightarrow>
     0 \<le> h \<and> h < 16 \<and> hex_digit (nat h) = char_tolower c \<and>
     from_hexdigit (char_to_int (char_tolower c)) = Some h"
  using table_tolower_all unfolding list_all_iff by blast

lemma tolower_hyphen: "char_tolower CHR ''-'' = CHR ''-''"
  by (simp add: char_tolower_def char_to_int_def tolower_def char_of_def)

lemma decoded_nibbles:
  assumes "iter_ok s k"
  shows "hex_digit (unat (decoded_byte s k) div 16) = char_tolower (s ! hpos k) \<and>
         hex_digit (unat (decoded_byte s k) mod 16) = char_tolower (s ! (hpos k + 1))"
proof -
  from assms obtain h l where
    h: "from_hexdigit (char_to_int (s ! hpos k)) = Some h" and
    l: "from_hexdigit (char_to_int (s ! (hpos k + 1))) = Some l"
    unfolding iter_ok_def by blast
  define hn where "hn = nat h"
  define ln where "ln = nat l"
  from table_tolower [OF from_hexdigit_char_cases [OF h]]
  have hn: "h = int hn" "hn < 16" "hex_digit hn = char_tolower (s ! hpos k)"
    by (auto simp: hn_def)
  from table_tolower [OF from_hexdigit_char_cases [OF l]]
  have ln: "l = int ln" "ln < 16" "hex_digit ln = char_tolower (s ! (hpos k + 1))"
    by (auto simp: ln_def)
  have "decoded_byte s k = word_of_int (push_bit 4 (int hn) OR int ln)"
    unfolding decoded_byte_def h l option.sel hn(1) ln(1) ..
  then have "unat (decoded_byte s k) = 16 * hn + ln"
    using nibbles_of_pair [OF hn(2) ln(2)] by simp
  then have "unat (decoded_byte s k) div 16 = hn" "unat (decoded_byte s k) mod 16 = ln"
    using ln(2) by simp_all
  then show ?thesis using hn(3) ln(3) by simp
qed

lemma iter_ok_tolower:
  assumes len: "length s = 36" and k: "k < 16" and ok: "iter_ok s k"
  shows "iter_ok (map char_tolower s) k \<and>
         decoded_byte (map char_tolower s) k = decoded_byte s k"
proof -
  from ok obtain h l where
    h: "from_hexdigit (char_to_int (s ! hpos k)) = Some h" and
    l: "from_hexdigit (char_to_int (s ! (hpos k + 1))) = Some l"
    unfolding iter_ok_def by blast
  from hpos_props [OF k] len
  have n1: "map char_tolower s ! hpos k = char_tolower (s ! hpos k)"
    and n2: "map char_tolower s ! (hpos k + 1) = char_tolower (s ! (hpos k + 1))"
    by simp_all
  have h': "from_hexdigit (char_to_int (map char_tolower s ! hpos k)) = Some h"
    unfolding n1 using table_tolower [OF from_hexdigit_char_cases [OF h]] by blast
  have l': "from_hexdigit (char_to_int (map char_tolower s ! (hpos k + 1))) = Some l"
    unfolding n2 using table_tolower [OF from_hexdigit_char_cases [OF l]] by blast
  have "map char_tolower s ! (hpos k - 1) = CHR ''-''" if c: "k = 4 \<or> k = 6 \<or> k = 8 \<or> k = 10"
  proof -
    from ok c have "s ! (hpos k - 1) = CHR ''-''" unfolding iter_ok_def by blast
    moreover from hpos_pred [OF c] len
    have "map char_tolower s ! (hpos k - 1) = char_tolower (s ! (hpos k - 1))" by simp
    ultimately show ?thesis by (simp only: tolower_hyphen)
  qed
  then have "iter_ok (map char_tolower s) k" unfolding iter_ok_def h' l' by simp
  moreover have "decoded_byte (map char_tolower s) k = decoded_byte s k"
    unfolding decoded_byte_def h l h' l' ..
  ultimately show ?thesis ..
qed

lemma lower_hex_not_upper: "c \<in> set ''0123456789abcdef'' \<Longrightarrow> \<not> uppercase_char c"
  by (auto simp: uppercase_char_def)

text \<open>
  Claim C9. For every string \<open>s\<close> that \<open>str_to_uuid\<close> accepts, encoding the
  decoded identifier gives \<open>s\<close> with every character put in lower case, a string
  without any uppercase letter; and decoding that lowercase string gives the same
  identifier, so \<open>A-F\<close> and \<open>a-f\<close> decode to the same bytes.
\<close>

theorem uuid_to_str_str_to_uuid_lowercase:
  assumes dec: "str_to_uuid s out = Inr (True, d)" and out: "length out = kStaticSize"
  shows "uuid_to_str d = map char_tolower s \<and>
         (\<forall>c \<in> set (uuid_to_str d). \<not> uppercase_char c) \<and>
         str_to_uuid (map char_tolower s) out = Inr (True, d)"
proof -
  from str_to_uuid_flag [of s out] dec
  have len: "length s = 36" and ok: "\<forall>k<16. iter_ok s k" by auto
  from out have out16: "length out = 16" by (simp add: kStaticSize_def)
  from str_to_uuid_accepts [OF len ok out16] dec
  have d: "d = map (decoded_byte s) [0..<16]" by simp
  then have dlen: "length d = 16" and dnth: "\<And>k. k < 16 \<Longrightarrow> d ! k = decoded_byte s k"
    by simp_all
  have sep: "s ! j = CHR ''-''" if "separator_position j" for j
    using that ok [rule_format, of 4] ok [rule_format, of 6] ok [rule_format, of 8]
      ok [rule_format, of 10]
    by (auto simp: separator_position_def iter_ok_def hpos_def)
  have nth: "uuid_to_str d ! j = char_tolower (s ! j)" if j: "j < 36" for j
  proof (cases "separator_position j")
    case True
    then show ?thesis
      using uuid_to_str_separator [OF dlen True] sep [OF True] by (simp only: tolower_hyphen)
  next
    case False
    with position_cases [OF j]
    have k: "byte_of_pos j < 16"
      and pos: "j = hpos (byte_of_pos j) \<or> j = hpos (byte_of_pos j) + 1"
      by auto
    from ok k have okk: "iter_ok s (byte_of_pos j)" by blast
    from pos show ?thesis
    proof
      assume e: "j = hpos (byte_of_pos j)"
      have "uuid_to_str d ! hpos (byte_of_pos j) = char_tolower (s ! hpos (byte_of_pos j))"
        using uuid_to_str_nth [OF dlen k] decoded_nibbles [OF okk] dnth [OF k] by simp
      then show ?thesis using e by simp
    next
      assume e: "j = hpos (byte_of_pos j) + 1"
      have "uuid_to_str d ! (hpos (byte_of_pos j) + 1) =
            char_tolower (s ! (hpos (byte_of_pos j) + 1))"
        using uuid_to_str_nth [OF dlen k] decoded_nibbles [OF okk] dnth [OF k] by simp
      then show ?thesis using e by simp
    qed
  qed
  have 1: "uuid_to_str d = map char_tolower s"
    using length_uuid_to_str [OF dlen] len nth by (intro nth_equalityI) simp_all
  have 2: "\<forall>c \<in> set (uuid_to_str d). \<not> uppercase_char c"
  proof
    fix c assume "c \<in> set (uuid_to_str d)"
    then obtain j where j: "j < 36" "c = uuid_to_str d ! j"
      using length_uuid_to_str [OF dlen] by (auto simp: in_set_conv_nth)
    show "\<not> uppercase_char c"
    proof (cases "separator_position j")
      case True
      then show ?thesis
        using uuid_to_str_separator [OF dlen True] j(2) by (simp add: uppercase_char_def)
    next
      case False
      then show ?thesis
        using uuid_to_str_digit [OF dlen j(1) False] j(2) lower_hex_not_upper by blast
    qed
  qed
  have "\<forall>k<16. iter_ok (map char_tolower s) k"
    using iter_ok_tolower [OF len] ok by blast
  moreover have "map (decoded_byte (map char_tolower s)) [0..<16] = d"
    unfolding d using iter_ok_tolower [OF len] ok by simp
  ultimately have 3: "str_to_uuid (map char_tolower s) out = Inr (True, d)"
    using str_to_uuid_accepts [of "map char_tolower s" out] len out16 by simp
  from 1 2 3 show ?thesis by blast
qed

theorem uuid_to_str_str_to_uuid_lowercase_witness:
  "str_to_uuid ''ABCDEF01-2345-6789-ABCD-EF0123456789'' nil_uuid =
     Inr (True, [0xab, 0xcd, 0xef, 0x01, 0x23, 0x45, 0x67, 0x89,
                 0xab, 0xcd, 0xef, 0x01, 0x23, 0x45, 0x67, 0x89]) \<and>
   length nil_uuid = kStaticSize \<and>
   uuid_to_str [0xab, 0xcd, 0xef, 0x01, 0x23, 0x45, 0x67, 0x89,
                0xab, 0xcd, 0xef, 0x01, 0x23, 0x45, 0x67, 0x89] =
     ''abcdef01-2345-6789-abcd-ef0123456789''"
proof -
  let ?s = "''ABCDEF01-2345-6789-ABCD-EF0123456789''"
  let ?d = "[0xab, 0xcd, 0xef, 0x01, 0x23, 0x45, 0x67, 0x89,
             0xab, 0xcd, 0xef, 0x01, 0x23, 0x45, 0x67, 0x89 :: u8]"
  have dec: "str_to_uuid ?s nil_uuid = Inr (True, ?d)" by code_simp
  have out: "length nil_uuid = kStaticSize" by code_simp
  have low: "map char_tolower ?s = ''abcdef01-2345-6789-abcd-ef0123456789''" by code_simp
  from uuid_to_str_str_to_uuid_lowercase [OF dec out]
  have "uuid_to_str ?d = map char_tolower ?s" by (rule conjunct1)
  then have "uuid_to_str ?d = ''abcdef01-2345-6789-abcd-ef0123456789''"
    by (simp only: low)
  with dec out show ?thesis by (intro conjI)
qed

section \<open>The counter\<close>

lemma be_nat_snoc: "be_nat (xs @ [b]) = be_nat xs * 256 + unat b"
  by (simp add: be_nat_def)

lemma be_nat_less: "be_nat xs < 256 ^ length xs"
proof (induction xs rule: rev_induct)
  case Nil
  show ?case by (simp add: be_nat_def)
next
  case (snoc b xs)
  have "unat b < 256" using unsigned_less [of b, where 'a = nat] by simp
  with snoc have "be_nat xs * 256 + unat b < (be_nat xs + 1) * 256" by simp
  also have "\<dots> \<le> 256 ^ length xs * 256" using snoc by (intro mult_le_mono1) simp
  finally show ?case by (simp add: be_nat_snoc)
qed

text \<open>
  Started at index \<open>length xs\<close> with the carry set, the loop adds one to the
  big-endian number that the first \<open>length xs\<close> bytes hold, modulo its range, and
  leaves the bytes behind them alone.
\<close>

lemma increment_loop_spec:
  "\<exists>xs'. increment_loop (xs @ ys) True (length xs) = xs' @ ys \<and> length xs' = length xs \<and>
         be_nat xs' = (be_nat xs + 1) mod 256 ^ length xs"
proof (induction xs arbitrary: ys rule: rev_induct)
  case Nil
  show ?case by (subst increment_loop.simps) (simp add: be_nat_def)
next
  case (snoc b xs)
  have upd: "(xs @ [b] @ ys)[length xs := b + 1] = xs @ [b + 1] @ ys"
    by (simp add: list_update_append)
  show ?case
  proof (cases "b + 1 = 0")
    case False
    have run: "increment_loop ((xs @ [b]) @ ys) True (length (xs @ [b])) = (xs @ [b + 1]) @ ys"
      using False upd
      by (subst increment_loop.simps, subst increment_loop.simps)
         (simp add: nth_append Let_def)
    have "unat (b + 1) = unat b + 1" using False unatSuc [of b] by (simp add: add.commute)
    moreover have "unat (b + 1) < 256" using unsigned_less [of "b + 1", where 'a = nat] by simp
    ultimately have "be_nat (xs @ [b + 1]) = be_nat (xs @ [b]) + 1"
      and "be_nat (xs @ [b]) + 1 < 256 ^ length (xs @ [b])"
      using be_nat_less [of "xs @ [b + 1]"] by (simp_all add: be_nat_snoc)
    then have "be_nat (xs @ [b + 1]) = (be_nat (xs @ [b]) + 1) mod 256 ^ length (xs @ [b])"
      by simp
    with run show ?thesis by (intro exI [of _ "xs @ [b + 1]"]) simp
  next
    case True
    then have "b = - 1" by (simp add: add_eq_0_iff2)
    also have "(- 1 :: u8) = 255" by simp
    finally have b: "unat b = 255" by simp
    from snoc [of "[0] @ ys"] obtain xs' where
      xs': "increment_loop (xs @ [0] @ ys) True (length xs) = xs' @ [0] @ ys"
        "length xs' = length xs" "be_nat xs' = (be_nat xs + 1) mod 256 ^ length xs"
      by auto
    have run: "increment_loop ((xs @ [b]) @ ys) True (length (xs @ [b])) = (xs' @ [0]) @ ys"
      using True upd xs'(1)
      by (subst increment_loop.simps) (simp add: nth_append Let_def)
    have "be_nat (xs' @ [0]) = ((be_nat xs + 1) mod 256 ^ length xs) * 256"
      by (simp add: be_nat_snoc xs'(3))
    also have "\<dots> = ((be_nat xs + 1) * 256) mod (256 ^ length xs * 256)"
      by (simp add: mult_mod_left)
    also have "\<dots> = (be_nat (xs @ [b]) + 1) mod 256 ^ length (xs @ [b])"
      by (simp add: be_nat_snoc b mult.commute)
    finally show ?thesis using run xs'(2) by (intro exI [of _ "xs' @ [0]"]) simp
  qed
qed

lemma increment_loop_all_ones:
  "increment_loop (replicate 16 0xFF) True 16 = replicate 16 0"
  by code_simp

lemma increment_loop_16:
  assumes "length buf = 16"
  shows "length (increment_loop buf True 16) = 16 \<and>
         be_nat (increment_loop buf True 16) = (be_nat buf + 1) mod 2 ^ 128"
proof -
  from increment_loop_spec [of buf "[]"] assms obtain xs' where
    "increment_loop buf True 16 = xs'" "length xs' = 16"
    "be_nat xs' = (be_nat buf + 1) mod 256 ^ 16"
    by auto
  moreover have "(256::nat) ^ 16 = 2 ^ 128" by simp
  ultimately show ?thesis by simp
qed

lemma memcpy_whole: "length src = n \<Longrightarrow> length dst = n \<Longrightarrow> memcpy dst src n = src"
  by (simp add: memcpy_def)

lemma length_uuid_t: "length uuid_t = 16"
  by code_simp

text \<open>
  Claim C7. \<open>get_and_increment_uuid\<close> returns the counter as it was and adds one
  to the stored counter read as a 128-bit big-endian unsigned integer, modulo
  \<open>2 ^ 128\<close>: the carry runs from the last byte towards the first and is dropped
  past the first. A counter of 16 bytes \<open>0xFF\<close> becomes 16 zero bytes. The function
  has no failing outcome.
\<close>

theorem get_and_increment_uuid_adds_one:
  assumes "length (next_uuid st) = kStaticSize"
  shows "fst (get_and_increment_uuid st) = next_uuid st \<and>
         length (next_uuid (snd (get_and_increment_uuid st))) = kStaticSize \<and>
         be_nat (next_uuid (snd (get_and_increment_uuid st))) =
           (be_nat (next_uuid st) + 1) mod 2 ^ 128 \<and>
         next_uuid (snd (get_and_increment_uuid (st\<lparr>next_uuid := replicate kStaticSize 0xFF\<rparr>))) =
           replicate kStaticSize 0"
proof -
  from assms have len: "length (next_uuid st) = 16" by (simp add: kStaticSize_def)
  have 1: "fst (get_and_increment_uuid st) = next_uuid st"
    using memcpy_whole [OF len length_uuid_t]
    by (simp add: get_and_increment_uuid_def kStaticSize_def Let_def)
  have 2: "next_uuid (snd (get_and_increment_uuid s)) = increment_loop (next_uuid s) True 16" for s
    by (simp add: get_and_increment_uuid_def kStaticSize_def Let_def)
  have 3: "replicate kStaticSize (0xFF :: u8) = replicate 16 0xFF"
    "replicate kStaticSize (0 :: u8) = replicate 16 0"
    by (simp_all only: kStaticSize_def)
  show ?thesis
    unfolding 1 2 3 using increment_loop_16 [OF len] increment_loop_all_ones
    by (simp add: kStaticSize_def)
qed

theorem get_and_increment_uuid_adds_one_witness:
  "length (next_uuid \<lparr>next_uuid_initialized = True, next_uuid = replicate 15 0 @ [0xFF]\<rparr>) = kStaticSize \<and>
   be_nat (next_uuid \<lparr>next_uuid_initialized = True, next_uuid = replicate 15 0 @ [0xFF]\<rparr>) = 255 \<and>
   be_nat (next_uuid (snd (get_and_increment_uuid
      \<lparr>next_uuid_initialized = True, next_uuid = replicate 15 0 @ [0xFF]\<rparr>))) = 256"
proof -
  let ?st = "\<lparr>next_uuid_initialized = True, next_uuid = replicate 15 0 @ [0xFF]\<rparr>"
  have len: "length (next_uuid ?st) = kStaticSize" by (simp add: kStaticSize_def)
  have v: "be_nat (next_uuid ?st) = 255" by code_simp
  from get_and_increment_uuid_adds_one [OF len]
  have "be_nat (next_uuid (snd (get_and_increment_uuid ?st))) = (be_nat (next_uuid ?st) + 1) mod 2 ^ 128"
    by blast
  also have "\<dots> = 256" unfolding v by simp
  finally show ?thesis using len v by blast
qed

section \<open>The version and variant bits\<close>

lemma tag_version: "(((x::u8) AND 0x0f) OR 0x40) AND 0xf0 = 0x40"
  by (simp add: bit.conj_disj_distrib2 and.assoc)

lemma tag_variant: "(((x::u8) AND 0x3f) OR 0x80) AND 0xc0 = 0x80"
  by (simp add: bit.conj_disj_distrib2 and.assoc)

lemma hash_uuid_bits:
  assumes h: "hash_uuid SHA1 uuid = Inr u"
    and sha: "\<forall>x y. SHA1 x = Some y \<longrightarrow> length y = SHA_DIGEST_LENGTH"
    and len: "length uuid \<le> kStaticSize"
  shows "u ! 6 AND 0xf0 = 0x40 \<and> u ! 8 AND 0xc0 = 0x80 \<and> length u = kStaticSize"
proof -
  from h obtain ob where ob: "SHA1 (take kStaticSize uuid) = Some ob"
    and u: "u = memcpy uuid (ob[6 := (ob ! 6 AND 0x0f) OR 0x40, 8 := (ob ! 8 AND 0x3f) OR 0x80]) kStaticSize"
    by (auto simp: hash_uuid_def Let_def split: option.splits)
  from sha ob have l: "length ob = 20" by (simp add: SHA_DIGEST_LENGTH_def)
  have "u ! 6 = (ob ! 6 AND 0x0f) OR 0x40" "u ! 8 = (ob ! 8 AND 0x3f) OR 0x80"
    "length u = 16"
    using l len unfolding u
    by (simp_all add: memcpy_def kStaticSize_def nth_append)
  then show ?thesis
    by (simp only: tag_version tag_variant kStaticSize_def simp_thms)
qed

text \<open>
  Claim C3. Every identifier that \<open>generate_uuid\<close> returns has \<open>0100\<close> in the top
  nibble of byte 6 and \<open>10\<close> in the top two bits of byte 8, for every digest
  function that fills the \<open>SHA_DIGEST_LENGTH\<close> bytes of its output buffer, every
  state of the entropy device and every state of the thread.
\<close>

theorem generate_uuid_version_bits:
  assumes gen: "generate_uuid SHA1 urandom st = Inr (u, st')"
    and sha: "\<forall>x y. SHA1 x = Some y \<longrightarrow> length y = SHA_DIGEST_LENGTH"
  shows "u ! 6 AND 0xf0 = 0x40 \<and> u ! 8 AND 0xc0 = 0x80 \<and> length u = kStaticSize"
proof -
  have pre: "length (fst (get_and_increment_uuid s)) \<le> kStaticSize" for s
    using length_uuid_t by (simp add: get_and_increment_uuid_def memcpy_def kStaticSize_def Let_def)
  define st1 where "st1 = (if \<not> next_uuid_initialized st
      then (case initialize_dev_random_uuid urandom (next_uuid st) of
              Inl e \<Rightarrow> st
            | Inr seeded \<Rightarrow> st\<lparr>next_uuid := seeded, next_uuid_initialized := True\<rparr>)
      else st)"
  from gen have "hash_uuid SHA1 (fst (get_and_increment_uuid st1)) = Inr u"
    unfolding generate_uuid_def st1_def
    by (simp split: if_splits sum.splits prod.splits)
  from hash_uuid_bits [OF this sha pre] show ?thesis .
qed

theorem generate_uuid_version_bits_witness:
  "generate_uuid padding_digest (Some (replicate 16 0xFF)) initial_thread_state =
     Inr ([0xFF, 0xFF, 0xFF, 0xFF, 0xFF, 0xFF, 0x4F, 0xFF,
           0xBF, 0xFF, 0xFF, 0xFF, 0xFF, 0xFF, 0xFF, 0xFF],
          \<lparr>next_uuid_initialized = True, next_uuid = replicate 16 0\<rparr>) \<and>
   (0x4F :: u8) AND 0xf0 = 0x40 \<and> (0xBF :: u8) AND 0xc0 = 0x80"
proof -
  let ?u = "[0xFF, 0xFF, 0xFF, 0xFF, 0xFF, 0xFF, 0x4F, 0xFF,
             0xBF, 0xFF, 0xFF, 0xFF, 0xFF, 0xFF, 0xFF, 0xFF :: u8]"
  have gen: "generate_uuid padding_digest (Some (replicate 16 0xFF)) initial_thread_state =
      Inr (?u, \<lparr>next_uuid_initialized = True, next_uuid = replicate 16 0\<rparr>)"
    by code_simp
  have sha: "\<forall>x y. padding_digest x = Some y \<longrightarrow> length y = SHA_DIGEST_LENGTH"
    by (auto simp: padding_digest_def SHA_DIGEST_LENGTH_def)
  from generate_uuid_version_bits [OF gen sha]
  have "?u ! 6 AND 0xf0 = 0x40" "?u ! 8 AND 0xc0 = 0x80" by blast+
  then have "(0x4F :: u8) AND 0xf0 = 0x40" "(0xBF :: u8) AND 0xc0 = 0x80" by simp_all
  with gen show ?thesis by (intro conjI)
qed

section \<open>Successive counter values\<close>

text \<open>
  The values hashed by up to \<open>2 ^ 128\<close> consecutive calls in one thread are pairwise
  different. Whether the identifiers returned are different as well depends on the
  digest, which is not part of the program.
\<close>

lemma be_nat_inj:
  "length xs = length ys \<Longrightarrow> be_nat xs = be_nat ys \<Longrightarrow> xs = ys"
proof (induction xs arbitrary: ys rule: rev_induct)
  case Nil
  then show ?case by simp
next
  case (snoc b xs)
  from snoc.prems(1) obtain zs c where ys: "ys = zs @ [c]"
    by (cases ys rule: rev_cases) auto
  with snoc.prems(1) have l: "length xs = length zs" by simp
  have b: "unat b < 256" and c: "unat c < 256"
    using unsigned_less [of b, where 'a = nat] unsigned_less [of c, where 'a = nat] by simp_all
  from snoc.prems(2) have e: "be_nat xs * 256 + unat b = be_nat zs * 256 + unat c"
    unfolding ys be_nat_snoc .
  from arg_cong [OF e, of "\<lambda>v. v div 256"] b c have 1: "be_nat xs = be_nat zs" by simp
  from arg_cong [OF e, of "\<lambda>v. v mod 256"] b c have 2: "unat b = unat c" by simp
  from 2 have "b = c" by (simp add: word_unat_eq_iff)
  with snoc.IH [OF l 1] show ?case unfolding ys by simp
qed

lemma pre_digest_values_nth:
  "length (next_uuid st) = 16 \<Longrightarrow> i < n \<Longrightarrow>
     length (pre_digest_values n st ! i) = 16 \<and>
     be_nat (pre_digest_values n st ! i) = (be_nat (next_uuid st) + i) mod 2 ^ 128"
proof (induction n arbitrary: st i)
  case 0
  then show ?case by simp
next
  case (Suc n)
  obtain result st' where g: "get_and_increment_uuid st = (result, st')" by fastforce
  have r: "result = next_uuid st"
    using memcpy_whole [OF Suc.prems(1) length_uuid_t] g
    by (auto simp add: get_and_increment_uuid_def kStaticSize_def Let_def)
  have n': "next_uuid st' = increment_loop (next_uuid st) True 16"
    using g by (auto simp add: get_and_increment_uuid_def kStaticSize_def Let_def)
  note inc = increment_loop_16 [OF Suc.prems(1), folded n']
  show ?case
  proof (cases i)
    case 0
    have "be_nat (next_uuid st) < 2 ^ 128"
      using be_nat_less [of "next_uuid st"] Suc.prems(1) by simp
    then show ?thesis using 0 g r Suc.prems(1) by simp
  next
    case (Suc j)
    with Suc.prems have j: "j < n" by simp
    from Suc.IH [OF conjunct1 [OF inc] j] inc
    have "length (pre_digest_values n st' ! j) = 16"
      "be_nat (pre_digest_values n st' ! j) = ((be_nat (next_uuid st) + 1) mod 2 ^ 128 + j) mod 2 ^ 128"
      by simp_all
    then show ?thesis using Suc g by (simp add: mod_add_left_eq)
  qed
qed

lemma length_pre_digest_values: "length (pre_digest_values n st) = n"
  by (induction n arbitrary: st) (auto split: prod.splits)

lemma mod_shift_neq:
  assumes "i < j" "j - i < M"
  shows "(c + i) mod M \<noteq> (c + j) mod (M::nat)"
proof
  assume "(c + i) mod M = (c + j) mod M"
  then have "(c + j) mod M = (c + i) mod M" by (rule sym)
  moreover have "c + i \<le> c + j" using assms(1) by simp
  ultimately have "M dvd (c + j) - (c + i)" by (simp only: mod_eq_dvd_iff_nat)
  then have "M dvd j - i" by simp
  moreover have "0 < j - i" using assms(1) by simp
  ultimately have "M \<le> j - i" by (rule dvd_imp_le)
  with assms(2) show False by simp
qed

lemma pre_digest_values_distinct:
  assumes len: "length (next_uuid st) = 16" and n: "n \<le> 2 ^ 128"
  shows "distinct (pre_digest_values n st)"
proof -
  have "pre_digest_values n st ! i \<noteq> pre_digest_values n st ! j" if ij: "i < j" and j: "j < n" for i j
  proof
    assume e: "pre_digest_values n st ! i = pre_digest_values n st ! j"
    from ij j have i: "i < n" by simp
    from pre_digest_values_nth [OF len i] pre_digest_values_nth [OF len j] e
    have "(be_nat (next_uuid st) + i) mod 2 ^ 128 = (be_nat (next_uuid st) + j) mod 2 ^ 128"
      by (simp only:)
    moreover have "j - i < 2 ^ 128" using j n by linarith
    ultimately show False using mod_shift_neq [OF ij, of "2 ^ 128" "be_nat (next_uuid st)"] by blast
  qed
  then have "pre_digest_values n st ! i \<noteq> pre_digest_values n st ! j"
    if "i < n" "j < n" "i \<noteq> j" for i j
    using that by (cases "i < j") (auto simp: not_less le_less, metis)
  then show ?thesis
    unfolding distinct_conv_nth length_pre_digest_values by blast
qed

end
